theory Spec2Isabelle
  imports Main "HOL-Library.Word" "HOL-Library.Signed_Division"
begin

section \<open>The ISBN value and its constants\<close>

text \<open>
  A Go \<^verbatim>\<open>byte\<close> is an 8-bit word.  A Go \<^verbatim>\<open>string\<close> is a sequence of bytes, as an
  Isabelle \<^typ>\<open>string\<close> is; \<^verbatim>\<open>len\<close> counts bytes.  A \<^verbatim>\<open>rune\<close> (int32) and an
  \<^verbatim>\<open>int\<close> (64 bits) are modelled as \<^typ>\<open>int\<close>: the runes met here lie between
  \<open>-1\<close> and \<open>255\<close> and the checksum sums stay below \<open>14000\<close>, far from any
  wrap-around.  The arrays \<^verbatim>\<open>[3]byte\<close> and \<^verbatim>\<open>[9]byte\<close> are lists; their lengths are
  part of \<open>wellformed\<close> below.
\<close>

type_synonym byte = "8 word"
type_synonym rune = int

record ISBN =
  is13 :: bool
  prefix :: "byte list"
  digits :: "byte list"
  checksum :: byte

definition allowedISBN13Prefixes :: "byte list list" where
  "allowedISBN13Prefixes = [[9, 7, 8], [9, 7, 9]]"

definition urnPrefix :: string where
  "urnPrefix = ''urn:isbn:''"

text \<open>
  The errors of \<^verbatim>\<open>Parse\<close>, one constructor for each \<^verbatim>\<open>fmt.Errorf\<close> of the source, in
  the source's order:
  \<^item> \<open>FormatError\<close>: "Invalid ISBN format";
  \<^item> \<open>DigitCountError\<close>: "Invalid ISBN digit count";
  \<^item> \<open>PrefixError t\<close>: "Unexpected ISBN-13 prefix: %s" with \<open>t = s[0:3]\<close>;
  \<^item> \<open>InvalidCharacterPositionError\<close>: "Unexpected character in ISBN (X can only be
    the final digit of an ISBN-10)";
  \<^item> \<open>ChecksumError\<close>: "ISBN checksum was incorrect".
  \<open>IndexPanic\<close> stands for the run-time panic of an array write out of range.
\<close>

datatype error =
    FormatError
  | DigitCountError
  | PrefixError string
  | InvalidCharacterPositionError
  | ChecksumError
  | IndexPanic

section \<open>Characters and digit values\<close>

definition runeToISBNDigit :: "rune \<Rightarrow> rune" where
  "runeToISBNDigit r =
     (if r \<ge> of_char CHR ''0'' \<and> r \<le> of_char CHR ''9'' then r - 48
      else if r = of_char CHR ''x'' \<or> r = of_char CHR ''X'' then 10
      else - 1)"

text \<open>\<open>None\<close> is the panic "Invalid byte in ISBN data".\<close>

definition isbnDigitToByte :: "byte \<Rightarrow> byte option" where
  "isbnDigitToByte r =
     (if r \<ge> 0 \<and> r \<le> 9 then Some (r + 48)
      else if r = 10 then Some (of_char CHR ''X'')
      else None)"

text \<open>
  \<^verbatim>\<open>strings.Map(mapping, s)\<close> applies \<open>mapping\<close> to every rune of \<open>s\<close>, drops the
  rune when the result is negative and appends the UTF-8 form of the result otherwise.
  The model works on the bytes of \<open>s\<close>, for a \<open>mapping\<close> that sends every rune from
  128 on to a negative value and every other rune to a value below 128 (as
  \<open>runeToISBNDigit\<close> does): a byte below 128 is a rune of its own, and the bytes from
  128 on only make up runes from 128 on (or the replacement rune for a malformed
  byte), which are dropped as each of their bytes is here; a result below 128 is the
  single byte of that value.
\<close>

definition strings_Map :: "(rune \<Rightarrow> rune) \<Rightarrow> string \<Rightarrow> string" where
  "strings_Map mapping s =
     map (\<lambda>r. char_of (nat r)) (filter (\<lambda>r. r \<ge> 0) (map (\<lambda>c. mapping (of_char c)) s))"

definition HasPrefix :: "string \<Rightarrow> string \<Rightarrow> bool" where
  "HasPrefix s p = (length s \<ge> length p \<and> take (length p) s = p)"

section \<open>Checksums\<close>

text \<open>
  The loop \<^verbatim>\<open>for i, d := range digits { sum += int(d) * (10 - i) }\<close>, started at index
  \<open>i\<close> with the sum so far (\<open>acc\<close> is the source's \<^verbatim>\<open>sum\<close>).
  Go's \<^verbatim>\<open>%\<close> truncates towards zero: \<open>smod\<close>.
\<close>

fun check10_loop :: "nat \<Rightarrow> byte list \<Rightarrow> int \<Rightarrow> int" where
  "check10_loop i [] acc = acc"
| "check10_loop i (d # ds) acc = check10_loop (Suc i) ds (acc + uint d * (10 - int i))"

definition check10 :: "byte list \<Rightarrow> byte" where
  "check10 ds =
     (let acc = check10_loop 0 ds 0;
          m = acc smod 11
      in if m = 0 then 0 else word_of_int (11 - m))"

fun check13_loop :: "nat \<Rightarrow> byte list \<Rightarrow> int \<Rightarrow> int" where
  "check13_loop i [] acc = acc"
| "check13_loop i (d # ds) acc =
     check13_loop (Suc i) ds (acc + uint d * (if i mod 2 = 0 then 3 else 1))"

definition check13 :: "byte list \<Rightarrow> byte list \<Rightarrow> byte" where
  "check13 p ds =
     (let acc = check13_loop 0 ds (1 * uint (p ! 0) + 3 * uint (p ! 1) + 1 * uint (p ! 2));
          m = acc smod 10
      in if m = 0 then 0 else word_of_int (10 - m))"

definition isValid :: "ISBN \<Rightarrow> bool" where
  "isValid n =
     (if is13 n then check13 (prefix n) (digits n) = checksum n
      else check10 (digits n) = checksum n)"

section \<open>Parsing\<close>

fun isAllowedPrefix_loop :: "byte list \<Rightarrow> byte list list \<Rightarrow> bool" where
  "isAllowedPrefix_loop s [] = False"
| "isAllowedPrefix_loop s (a # as) = (if s = a then True else isAllowedPrefix_loop s as)"

definition isAllowedPrefix :: "byte list \<Rightarrow> bool" where
  "isAllowedPrefix p = isAllowedPrefix_loop p allowedISBN13Prefixes"

text \<open>The first statement of \<^verbatim>\<open>Parse\<close>: the text that is left of the input.\<close>

definition strip_urn :: "string \<Rightarrow> string" where
  "strip_urn s = (if HasPrefix s urnPrefix then drop (length urnPrefix) s else s)"

text \<open>
  The loop \<^verbatim>\<open>for i, c := range []byte(m[offset:])\<close> of \<^verbatim>\<open>Parse\<close>, from index \<open>i\<close> on.
\<close>

fun parse_loop :: "bool \<Rightarrow> nat \<Rightarrow> byte list \<Rightarrow> ISBN \<Rightarrow> error + ISBN" where
  "parse_loop i13 i [] parsed = Inr parsed"
| "parse_loop i13 i (c # cs) parsed =
     (if c = 10 \<and> (i13 \<or> i \<noteq> 9) then Inl InvalidCharacterPositionError
      else if i = 9 then parse_loop i13 (Suc i) cs (parsed\<lparr>checksum := c\<rparr>)
      else if i < length (digits parsed)
        then parse_loop i13 (Suc i) cs (parsed\<lparr>digits := (digits parsed)[i := c]\<rparr>)
      else Inl IndexPanic)"

definition Parse :: "string \<Rightarrow> error + ISBN" where
  "Parse s0 =
     (let s = strip_urn s0 in
      if length s > 13 + 4 then Inl FormatError
      else
        let m = strings_Map runeToISBNDigit s;
            i13 = (length m = 13)
        in
          if length m \<noteq> 10 \<and> \<not> i13 then Inl DigitCountError
          else
            let parsed = \<lparr>is13 = i13, prefix = [0, 0, 0], digits = replicate 9 0, checksum = 0\<rparr>;
                pre = [of_char (m ! 0), of_char (m ! 1), of_char (m ! 2)]
            in
              if i13 \<and> \<not> isAllowedPrefix pre then Inl (PrefixError (take 3 s))
              else
                (case parse_loop i13 0 (map of_char (drop (if i13 then 3 else 0) m))
                        (if i13 then parsed\<lparr>prefix := pre\<rparr> else parsed) of
                   Inl e \<Rightarrow> Inl e
                 | Inr parsed' \<Rightarrow>
                     if \<not> isValid parsed' then Inl ChecksumError else Inr parsed'))"

definition Validate :: "string \<Rightarrow> bool" where
  "Validate s = (case Parse s of Inl e \<Rightarrow> False | Inr n \<Rightarrow> True)"

section \<open>Conversion\<close>

definition To10 :: "ISBN \<Rightarrow> ISBN" where
  "To10 n =
     (if \<not> is13 n then n
      else \<lparr>is13 = False, prefix = prefix n, digits = digits n, checksum = check10 (digits n)\<rparr>)"

text \<open>\<^verbatim>\<open>copy(dst, src)\<close> overwrites the first \<open>min (len dst) (len src)\<close> elements.\<close>

definition copy_bytes :: "byte list \<Rightarrow> byte list \<Rightarrow> byte list" where
  "copy_bytes dst src =
     take (min (length dst) (length src)) src @ drop (min (length dst) (length src)) dst"

definition To13 :: "ISBN \<Rightarrow> ISBN" where
  "To13 n =
     (if is13 n then n
      else
        let p = (if \<not> isAllowedPrefix (prefix n)
                 then copy_bytes [0, 0, 0] (allowedISBN13Prefixes ! 0)
                 else prefix n)
        in \<lparr>is13 = True, prefix = p, digits = digits n, checksum = check13 p (digits n)\<rparr>)"

section \<open>Rendering\<close>

text \<open>
  \<open>render bs\<close> is a loop \<^verbatim>\<open>for i, d := range bs { out[i] = isbnDigitToByte(d) }\<close>;
  it panics (\<open>None\<close>) when one of the calls does.
\<close>

fun render :: "byte list \<Rightarrow> byte list option" where
  "render [] = Some []"
| "render (d # ds) =
     (case isbnDigitToByte d of
        None \<Rightarrow> None
      | Some b \<Rightarrow> (case render ds of None \<Rightarrow> None | Some bs \<Rightarrow> Some (b # bs)))"

definition string_of_bytes :: "byte list \<Rightarrow> string" where
  "string_of_bytes bs = map (\<lambda>b. char_of (unat b)) bs"

definition String :: "ISBN \<Rightarrow> string option" where
  "String n =
     (case render (digits n) of
        None \<Rightarrow> None
      | Some body \<Rightarrow>
          (case isbnDigitToByte (checksum n) of
             None \<Rightarrow> None
           | Some c \<Rightarrow>
               let base = body @ [c] in
               if is13 n then
                 (case render (prefix n) of
                    None \<Rightarrow> None
                  | Some pre \<Rightarrow> Some (string_of_bytes pre @ ''-'' @ string_of_bytes base))
               else Some (string_of_bytes base)))"

definition ToURN :: "ISBN \<Rightarrow> string option" where
  "ToURN n = (case String n of None \<Rightarrow> None | Some s \<Rightarrow> Some (urnPrefix @ s))"

definition Canonical :: "ISBN \<Rightarrow> string option" where
  "Canonical n = ToURN (To13 n)"

section \<open>Specification-level definitions\<close>

text \<open>
  The two checksums as the specification words them: a weighted sum over the nine body
  digits (after the prefix's own contribution for ISBN-13), its remainder, and the
  complement of the remainder.
\<close>

definition check10_spec :: "byte list \<Rightarrow> byte" where
  "check10_spec ds =
     (let weighted = (\<Sum>i\<leftarrow>[0..<9]. uint (ds ! i) * (10 - int i));
          remainder = weighted mod 11
      in if remainder = 0 then 0 else word_of_int (11 - remainder))"

definition check13_spec :: "byte list \<Rightarrow> byte list \<Rightarrow> byte" where
  "check13_spec p ds =
     (let weighted = uint (p ! 0) * 1 + uint (p ! 1) * 3 + uint (p ! 2) * 1
                     + (\<Sum>i\<leftarrow>[0..<9]. uint (ds ! i) * (if even i then 3 else 1));
          remainder = weighted mod 10
      in if remainder = 0 then 0 else word_of_int (10 - remainder))"

text \<open>
  The invariants of the data model: the array lengths, body digits in 0..9, a checksum
  in 0..10 that is the one its form prescribes, 10 only on an ISBN-10, and an
  allow-listed prefix on an ISBN-13.
\<close>

definition wellformed :: "ISBN \<Rightarrow> bool" where
  "wellformed n =
     (length (prefix n) = 3 \<and> length (digits n) = 9 \<and> list_all (\<lambda>d. d \<le> 9) (digits n)
      \<and> checksum n \<le> 10 \<and> isValid n \<and> (checksum n = 10 \<longrightarrow> \<not> is13 n)
      \<and> (is13 n \<longrightarrow> isAllowedPrefix (prefix n)))"

text \<open>
  How a caller comes by a value: a call of \<open>Parse\<close>, followed by any number of calls of
  \<open>To10\<close> and \<open>To13\<close> on the result.  \<open>produce h\<close> runs the calls of \<open>h\<close>; the values
  the library hands out are the \<open>n\<close> with \<open>produce h = Inr n\<close> for some \<open>h\<close>.
\<close>

datatype calls = CallParse string | CallTo10 calls | CallTo13 calls

fun produce :: "calls \<Rightarrow> error + ISBN" where
  "produce (CallParse s) = Parse s"
| "produce (CallTo10 h) = (case produce h of Inl e \<Rightarrow> Inl e | Inr n \<Rightarrow> Inr (To10 n))"
| "produce (CallTo13 h) = (case produce h of Inl e \<Rightarrow> Inl e | Inr n \<Rightarrow> Inr (To13 n))"

text \<open>A byte of the input that normalization drops.\<close>

definition is_separator :: "char \<Rightarrow> bool" where
  "is_separator c = (runeToISBNDigit (of_char c) < 0)"

text \<open>
  Two results of \<open>Parse\<close> that agree except for the raw characters quoted by a
  \<open>PrefixError\<close>.
\<close>

fun same_outcome :: "error + ISBN \<Rightarrow> error + ISBN \<Rightarrow> bool" where
  "same_outcome (Inl (PrefixError t)) (Inl (PrefixError t')) = True"
| "same_outcome r r' = (r = r')"

section \<open>The checksum algorithms\<close>

lemma smod_nonneg: "0 \<le> (a::int) \<Longrightarrow> 0 < b \<Longrightarrow> a smod b = a mod b"
  by (simp add: smod_int_alt_def sgn_if)

lemma upt_shift: "[0..<Suc n] = 0 # map Suc [0..<n]"
  by (simp add: upt_conv_Cons map_Suc_upt del: upt_Suc)

lemma byte_of_int_le:
  "0 \<le> k \<Longrightarrow> k \<le> n \<Longrightarrow> n < 256 \<Longrightarrow> (word_of_int k :: byte) \<le> word_of_int n"
  by (simp add: word_le_def uint_word_of_int)

lemma check10_loop_sum:
  "check10_loop i ds acc =
     acc + (\<Sum>k\<leftarrow>[0..<length ds]. uint (ds ! k) * (10 - int (i + k)))"
proof (induction ds arbitrary: i acc)
  case Nil
  then show ?case by simp
next
  case (Cons d ds)
  have "(\<Sum>k\<leftarrow>[0..<length (d # ds)]. uint ((d # ds) ! k) * (10 - int (i + k)))
      = uint d * (10 - int i)
        + (\<Sum>k\<leftarrow>[0..<length ds]. uint (ds ! k) * (10 - int (Suc i + k)))"
    by (simp add: upt_shift comp_def del: upt_Suc)
  then show ?case using Cons.IH [of "Suc i" "acc + uint d * (10 - int i)"] by simp
qed

lemma check10_loop_nonneg:
  "0 \<le> acc \<Longrightarrow> i + length ds \<le> 10 \<Longrightarrow> 0 \<le> check10_loop i ds acc"
  by (induction ds arbitrary: i acc) auto

lemma check13_loop_sum:
  "check13_loop i ds acc =
     acc + (\<Sum>k\<leftarrow>[0..<length ds]. uint (ds ! k) * (if (i + k) mod 2 = 0 then 3 else 1))"
proof (induction ds arbitrary: i acc)
  case Nil
  then show ?case by simp
next
  case (Cons d ds)
  have "(\<Sum>k\<leftarrow>[0..<length (d # ds)]. uint ((d # ds) ! k) * (if (i + k) mod 2 = 0 then 3 else 1))
      = uint d * (if i mod 2 = 0 then 3 else 1)
        + (\<Sum>k\<leftarrow>[0..<length ds]. uint (ds ! k) * (if (Suc i + k) mod 2 = 0 then 3 else 1))"
    by (simp add: upt_shift comp_def del: upt_Suc)
  then show ?case
    using Cons.IH [of "Suc i" "acc + uint d * (if i mod 2 = 0 then 3 else 1)"] by simp
qed

lemma check13_loop_nonneg: "0 \<le> acc \<Longrightarrow> 0 \<le> check13_loop i ds acc"
  by (induction ds arbitrary: i acc) auto

text \<open>
  The remainder of the ISBN-10 sum lies in 0..10 and that of the ISBN-13 sum in 0..9,
  so the checksums lie in 0..10 and 0..9.  These bounds are shared by the later
  sections.
\<close>

lemma check10_le: "length ds = 9 \<Longrightarrow> check10 ds \<le> 10"
proof -
  assume len: "length ds = 9"
  define s where "s = check10_loop 0 ds 0"
  have "0 \<le> s"
    unfolding s_def using len by (intro check10_loop_nonneg) simp_all
  then have sm: "s smod 11 = s mod 11" by (simp add: smod_nonneg)
  have r: "0 \<le> s mod 11" "s mod 11 < 11" by simp_all
  show ?thesis
  proof (cases "s mod 11 = 0")
    case True
    then show ?thesis unfolding check10_def Let_def s_def [symmetric] sm by simp
  next
    case False
    then have "check10 ds = word_of_int (11 - s mod 11)"
      unfolding check10_def Let_def s_def [symmetric] sm by simp
    moreover have "(word_of_int (11 - s mod 11) :: byte) \<le> word_of_int 10"
      using r False by (intro byte_of_int_le) simp_all
    ultimately show ?thesis by simp
  qed
qed

lemma check13_le: "check13 p ds \<le> 9"
proof -
  define s where "s = check13_loop 0 ds (1 * uint (p ! 0) + 3 * uint (p ! 1) + 1 * uint (p ! 2))"
  have "0 \<le> s"
    unfolding s_def by (rule check13_loop_nonneg) simp
  then have sm: "s smod 10 = s mod 10" by (simp add: smod_nonneg)
  have r: "0 \<le> s mod 10" "s mod 10 < 10" by simp_all
  show ?thesis
  proof (cases "s mod 10 = 0")
    case True
    then show ?thesis unfolding check13_def Let_def s_def [symmetric] sm by simp
  next
    case False
    then have "check13 p ds = word_of_int (10 - s mod 10)"
      unfolding check13_def Let_def s_def [symmetric] sm by simp
    moreover have "(word_of_int (10 - s mod 10) :: byte) \<le> word_of_int 9"
      using r False by (intro byte_of_int_le) simp_all
    ultimately show ?thesis by simp
  qed
qed

text \<open>
  Claim C3.  For every array of nine body digits, \<open>check10\<close> returns the value the
  specification describes: the sum of body digit \<open>i\<close> times \<open>10 - i\<close>, its remainder
  modulo 11, and 0 for remainder 0, otherwise 11 minus the remainder; the result lies
  in 0..10.  (It holds for all byte values, in particular for digits in 0..9.)
\<close>

theorem check10_meets_spec:
  "length ds = 9 \<Longrightarrow> check10 ds = check10_spec ds \<and> check10 ds \<le> 10"
proof -
  assume len: "length ds = 9"
  define s where "s = check10_loop 0 ds 0"
  have "0 \<le> s"
    unfolding s_def using len by (intro check10_loop_nonneg) simp_all
  then have sm: "s smod 11 = s mod 11" by (simp add: smod_nonneg)
  have s_eq: "s = (\<Sum>i\<leftarrow>[0..<9]. uint (ds ! i) * (10 - int i))"
    unfolding s_def using len by (simp add: check10_loop_sum del: upt_Suc)
  have "check10 ds = check10_spec ds"
    unfolding check10_def check10_spec_def Let_def s_def [symmetric] s_eq [symmetric] sm ..
  with check10_le [OF len] show ?thesis by simp
qed

theorem check10_meets_spec_witness:
  "length [0, 8, 0, 4, 4, 2, 9, 5, 7 :: byte] = 9 \<and>
   check10 [0, 8, 0, 4, 4, 2, 9, 5, 7] = check10_spec [0, 8, 0, 4, 4, 2, 9, 5, 7] \<and>
   check10 [0, 8, 0, 4, 4, 2, 9, 5, 7] = 10"
proof -
  have h: "length [0, 8, 0, 4, 4, 2, 9, 5, 7 :: byte] = 9" by simp
  have v: "check10 [0, 8, 0, 4, 4, 2, 9, 5, 7] = 10" by code_simp
  show ?thesis using check10_meets_spec [OF h] v by simp
qed

text \<open>
  Claim C2.  For every prefix of three values and every array of nine body digits,
  \<open>check13\<close> returns the value the specification describes: the prefix weighted 1, 3, 1,
  then body digit \<open>i\<close> times 3 for even \<open>i\<close> and 1 for odd \<open>i\<close>, the remainder modulo
  10, and 0 for remainder 0, otherwise 10 minus the remainder; the result lies in 0..9
  and is never 10.  (It holds for all byte values, in particular for digits in 0..9.)
\<close>

theorem check13_meets_spec:
  "length p = 3 \<Longrightarrow> length ds = 9 \<Longrightarrow>
     check13 p ds = check13_spec p ds \<and> check13 p ds \<le> 9 \<and> check13 p ds \<noteq> 10"
proof -
  assume len: "length ds = 9"
  define s0 where "s0 = 1 * uint (p ! 0) + 3 * uint (p ! 1) + 1 * uint (p ! 2)"
  define s where "s = check13_loop 0 ds s0"
  have "0 \<le> s0" unfolding s0_def by simp
  then have "0 \<le> s"
    unfolding s_def by (rule check13_loop_nonneg)
  then have sm: "s smod 10 = s mod 10" by (simp add: smod_nonneg)
  have s_eq: "s = uint (p ! 0) * 1 + uint (p ! 1) * 3 + uint (p ! 2) * 1
                 + (\<Sum>i\<leftarrow>[0..<9]. uint (ds ! i) * (if even i then 3 else 1))"
    unfolding s_def s0_def using len
    by (simp add: check13_loop_sum even_iff_mod_2_eq_zero del: upt_Suc)
  have eq: "check13 p ds = check13_spec p ds"
    unfolding check13_def check13_spec_def Let_def s0_def [symmetric] s_def [symmetric]
      s_eq [symmetric] sm ..
  have le: "check13 p ds \<le> 9" by (rule check13_le)
  have "check13 p ds \<noteq> 10"
  proof
    assume "check13 p ds = 10"
    with le have "(10 :: byte) \<le> 9" by simp
    then show False by simp
  qed
  with eq le show ?thesis by simp
qed

theorem check13_meets_spec_witness:
  "length [9, 7, 8 :: byte] = 3 \<and> length [0, 8, 0, 4, 4, 2, 9, 5, 7 :: byte] = 9 \<and>
   check13 [9, 7, 8] [0, 8, 0, 4, 4, 2, 9, 5, 7]
     = check13_spec [9, 7, 8] [0, 8, 0, 4, 4, 2, 9, 5, 7] \<and>
   check13 [9, 7, 8] [0, 8, 0, 4, 4, 2, 9, 5, 7] = 3"
proof -
  have h1: "length [9, 7, 8 :: byte] = 3" by simp
  have h2: "length [0, 8, 0, 4, 4, 2, 9, 5, 7 :: byte] = 9" by simp
  have v: "check13 [9, 7, 8] [0, 8, 0, 4, 4, 2, 9, 5, 7] = 3" by code_simp
  show ?thesis using check13_meets_spec [OF h1 h2] v by simp
qed

section \<open>Bytes and rendering of single digits\<close>

lemma byte_le_9: "c \<le> 10 \<Longrightarrow> c \<noteq> 10 \<Longrightarrow> c \<le> (9::byte)"
  by unat_arith

lemma byte_10_or_le_9: "c \<le> (10::byte) \<Longrightarrow> c \<le> 9 \<or> c = 10"
  by unat_arith

lemma isbnDigitToByte_Some: "c \<le> 10 \<Longrightarrow> \<exists>b. isbnDigitToByte c = Some b"
  using byte_10_or_le_9 [of c] by (auto simp: isbnDigitToByte_def)

lemma render_Some: "list_all (\<lambda>d. d \<le> 10) ds \<Longrightarrow> \<exists>bs. render ds = Some bs"
proof (induction ds)
  case Nil
  then show ?case by simp
next
  case (Cons d ds)
  then obtain b bs where "isbnDigitToByte d = Some b" "render ds = Some bs"
    using isbnDigitToByte_Some [of d] by auto
  then show ?case by simp
qed

lemma isAllowedPrefix_iff: "isAllowedPrefix p \<longleftrightarrow> p = [9, 7, 8] \<or> p = [9, 7, 9]"
  by (auto simp: isAllowedPrefix_def allowedISBN13Prefixes_def)

section \<open>The loop of Parse\<close>

text \<open>
  The loop fails only with the X-placement error (the index panic is excluded below);
  when it succeeds on ten values in 0..10 it has filled nine body digits in 0..9 and a
  checksum in 0..10 that is 10 only for an ISBN-10; and it fails as soon as an X stands
  anywhere but in the last slot of an ISBN-10.
\<close>

lemma parse_loop_error:
  "parse_loop i13 i cs p = Inl e \<Longrightarrow> e = InvalidCharacterPositionError \<or> e = IndexPanic"
  by (induction cs arbitrary: i p) (auto split: if_splits)

lemma parse_loop_inv:
  "parse_loop i13 i cs p = Inr n \<Longrightarrow> length (digits p) = 9 \<Longrightarrow> i + length cs = 10 \<Longrightarrow>
   list_all (\<lambda>c. c \<le> 10) cs \<Longrightarrow> (\<forall>k<min i 9. digits p ! k \<le> 9) \<Longrightarrow>
   (i = 10 \<longrightarrow> checksum p \<le> 10 \<and> (checksum p = 10 \<longrightarrow> \<not> i13)) \<Longrightarrow>
   length (digits n) = 9 \<and> (\<forall>k<9. digits n ! k \<le> 9) \<and> checksum n \<le> 10 \<and>
   (checksum n = 10 \<longrightarrow> \<not> i13) \<and> is13 n = is13 p \<and> prefix n = prefix p"
proof (induction cs arbitrary: i p)
  case Nil
  then show ?case by simp
next
  case (Cons c cs)
  from Cons.prems(1) have ok: "\<not> (c = 10 \<and> (i13 \<or> i \<noteq> 9))"
    by (auto split: if_splits)
  from Cons.prems(4) have c10: "c \<le> 10" and rest: "list_all (\<lambda>c. c \<le> 10) cs" by simp_all
  show ?case
  proof (cases "i = 9")
    case True
    with Cons.prems(1) ok have run: "parse_loop i13 (Suc i) cs (p\<lparr>checksum := c\<rparr>) = Inr n"
      by (auto split: if_splits)
    from True Cons.prems(3) have "cs = []" by simp
    with run have "n = p\<lparr>checksum := c\<rparr>" by simp
    with True ok c10 Cons.prems(2,5) show ?thesis by auto
  next
    case False
    with Cons.prems(3) have i9: "i < 9" by simp
    with Cons.prems(1,2) ok False
    have run: "parse_loop i13 (Suc i) cs (p\<lparr>digits := (digits p)[i := c]\<rparr>) = Inr n"
      by (auto split: if_splits)
    from ok False have "c \<noteq> 10" by auto
    with c10 have c9: "c \<le> 9" by (rule byte_le_9)
    have "\<forall>k<min (Suc i) 9. digits (p\<lparr>digits := (digits p)[i := c]\<rparr>) ! k \<le> 9"
      using Cons.prems(2,5) i9 c9 by (auto simp: nth_list_update less_Suc_eq)
    with Cons.IH [OF run] Cons.prems(2,3) rest i9 show ?thesis by simp
  qed
qed

lemma parse_loop_X:
  "length (digits p) = 9 \<Longrightarrow> i + length cs \<le> 10 \<Longrightarrow> j < length cs \<Longrightarrow> cs ! j = 10 \<Longrightarrow>
   i13 \<or> i + j \<noteq> 9 \<Longrightarrow> parse_loop i13 i cs p = Inl InvalidCharacterPositionError"
proof (induction cs arbitrary: i j p)
  case Nil
  then show ?case by simp
next
  case (Cons c cs)
  show ?case
  proof (cases "c = 10 \<and> (i13 \<or> i \<noteq> 9)")
    case True
    then show ?thesis by simp
  next
    case False
    with Cons.prems(4,5) obtain j' where j: "j = Suc j'" by (cases j) auto
    with Cons.prems(2,3) have i9: "i < 9" by simp
    have "parse_loop i13 (Suc i) cs (p\<lparr>digits := (digits p)[i := c]\<rparr>)
            = Inl InvalidCharacterPositionError"
      using Cons.prems j by (intro Cons.IH [of _ _ j']) auto
    with False i9 Cons.prems(1) show ?thesis by auto
  qed
qed


lemma parse_loop_no_panic:
  "length (digits p) = 9 \<Longrightarrow> i + length cs \<le> 10 \<Longrightarrow> parse_loop i13 i cs p \<noteq> Inl IndexPanic"
proof (induction cs arbitrary: i p)
  case Nil
  then show ?case by simp
next
  case (Cons c cs)
  show ?case
  proof (cases "i = 9")
    case True
    with Cons.prems have "cs = []" by simp
    with True show ?thesis by simp
  next
    case False
    with Cons.prems have "i < 9" by simp
    with Cons.prems Cons.IH [of "p\<lparr>digits := (digits p)[i := c]\<rparr>" "Suc i"] show ?thesis
      by simp
  qed
qed

section \<open>Normalization yields digit values\<close>

lemma runeToISBNDigit_range: "runeToISBNDigit r = - 1 \<or> (0 \<le> runeToISBNDigit r \<and> runeToISBNDigit r \<le> 10)"
  by (auto simp: runeToISBNDigit_def)

lemma byte_of_char_of: "0 \<le> r \<Longrightarrow> r < 256 \<Longrightarrow> (of_char (char_of (nat r)) :: byte) = word_of_int r"
proof -
  assume r: "0 \<le> r" "r < 256"
  have "(of_char (char_of (nat r)) :: byte) = of_nat (of_char (char_of (nat r)))"
    by (simp only: of_nat_of_char)
  also have "\<dots> = of_nat (nat r)" using r by simp
  also have "\<dots> = word_of_int r" using r by simp
  finally show ?thesis .
qed

lemma survivors_le_10:
  "list_all (\<lambda>c. c \<le> (10::byte)) (map of_char (strings_Map runeToISBNDigit s))"
proof -
  have "(of_char (char_of (nat (runeToISBNDigit r))) :: byte) \<le> 10" if "0 \<le> runeToISBNDigit r" for r
  proof -
    from that runeToISBNDigit_range [of r] have b: "0 \<le> runeToISBNDigit r" "runeToISBNDigit r \<le> 10"
      by auto
    then have "(of_char (char_of (nat (runeToISBNDigit r))) :: byte) = word_of_int (runeToISBNDigit r)"
      by (intro byte_of_char_of) simp_all
    also have "\<dots> \<le> word_of_int 10" using b by (intro byte_of_int_le) simp_all
    finally show ?thesis by simp
  qed
  then show ?thesis
    by (auto simp: strings_Map_def list_all_iff)
qed

section \<open>Every constructed value is well-formed\<close>

lemma Parse_wellformed: "Parse s = Inr n \<Longrightarrow> wellformed n"
proof -
  assume ok: "Parse s = Inr n"
  define t where "t = strip_urn s"
  define m where "m = strings_Map runeToISBNDigit t"
  define i13 where "i13 = (length m = 13)"
  define pre :: "byte list" where "pre = [of_char (m ! 0), of_char (m ! 1), of_char (m ! 2)]"
  define p0 where "p0 = \<lparr>is13 = i13, prefix = [0, 0, 0], digits = replicate 9 (0::byte), checksum = 0\<rparr>"
  define p1 where "p1 = (if i13 then p0\<lparr>prefix := pre\<rparr> else p0)"
  define cs :: "byte list" where "cs = map of_char (drop (if i13 then 3 else 0) m)"
  from ok have len: "length m = 10 \<or> length m = 13"
    and allowed: "i13 \<longrightarrow> isAllowedPrefix pre"
    and run: "parse_loop i13 0 cs p1 = Inr n"
    and valid: "isValid n"
    unfolding Parse_def Let_def t_def [symmetric] m_def [symmetric] i13_def [symmetric]
      pre_def [symmetric] p0_def [symmetric] p1_def [symmetric] cs_def [symmetric]
    by (auto split: if_splits sum.splits)
  have cs_len: "0 + length cs = 10" using len by (auto simp: cs_def i13_def)
  have "list_all (\<lambda>c. c \<le> (10::byte)) (map of_char m)"
    unfolding m_def by (rule survivors_le_10)
  then have cs_le: "list_all (\<lambda>c. c \<le> 10) cs"
    unfolding cs_def list_all_iff by (auto dest: in_set_dropD)
  have p1_len: "length (digits p1) = 9" by (simp add: p1_def p0_def)
  have inv: "length (digits n) = 9 \<and> (\<forall>k<9. digits n ! k \<le> 9) \<and> checksum n \<le> 10 \<and>
     (checksum n = 10 \<longrightarrow> \<not> i13) \<and> is13 n = is13 p1 \<and> prefix n = prefix p1"
    by (rule parse_loop_inv [OF run p1_len cs_len cs_le]) simp_all
  have is13: "is13 n = i13" using inv by (simp add: p1_def p0_def)
  have pre3: "length (prefix n) = 3" using inv by (simp add: p1_def p0_def pre_def)
  have pre_ok: "is13 n \<longrightarrow> isAllowedPrefix (prefix n)"
    using inv allowed is13 by (simp add: p1_def p0_def)
  have digs: "list_all (\<lambda>d. d \<le> 9) (digits n)"
    using inv by (auto simp: list_all_length)
  have x: "checksum n = 10 \<longrightarrow> \<not> is13 n"
    using inv is13 by blast
  from inv have "length (digits n) = 9" "checksum n \<le> 10" by blast+
  with pre3 digs valid x pre_ok show ?thesis
    unfolding wellformed_def by blast
qed

lemma To10_wellformed: "wellformed n \<Longrightarrow> wellformed (To10 n)"
  by (auto simp: wellformed_def To10_def isValid_def check10_le)

lemma To13_wellformed: "wellformed n \<Longrightarrow> wellformed (To13 n)"
proof -
  assume wf: "wellformed n"
  have le: "check13 p (digits n) \<le> 10" for p
    using check13_le [of p "digits n"] by (rule order_trans) simp
  have ne: "check13 p (digits n) \<noteq> 10" for p
  proof
    assume "check13 p (digits n) = 10"
    with check13_le [of p "digits n"] have "(10::byte) \<le> 9" by simp
    then show False by simp
  qed
  have fallback: "copy_bytes [0, 0, 0] (allowedISBN13Prefixes ! 0) = [9, 7, 8]"
    by (simp add: copy_bytes_def allowedISBN13Prefixes_def)
  show ?thesis
  proof (cases "is13 n")
    case True
    with wf show ?thesis by (simp add: To13_def)
  next
    case False
    with wf show ?thesis
      by (auto simp: wellformed_def To13_def isValid_def Let_def fallback le ne isAllowedPrefix_iff)
  qed
qed

lemma produce_wellformed: "produce h = Inr n \<Longrightarrow> wellformed n"
proof (induction h arbitrary: n)
  case (CallParse s)
  then show ?case by (simp add: Parse_wellformed)
next
  case (CallTo10 h)
  then show ?case by (auto split: sum.splits intro: To10_wellformed)
next
  case (CallTo13 h)
  then show ?case by (auto split: sum.splits intro: To13_wellformed)
qed

section \<open>Rendering\<close>

lemma String_total: "wellformed n \<Longrightarrow> \<exists>s. String n = Some s"
proof -
  assume wf: "wellformed n"
  then have "\<forall>d\<in>set (digits n). d \<le> 9"
    by (simp add: wellformed_def list_all_iff)
  moreover have "d \<le> 10" if "d \<le> 9" for d :: byte
    using that by (rule order_trans) simp
  ultimately have "list_all (\<lambda>d. d \<le> 10) (digits n)"
    unfolding list_all_iff by blast
  then obtain body where body: "render (digits n) = Some body"
    using render_Some by blast
  from wf obtain c where c: "isbnDigitToByte (checksum n) = Some c"
    using isbnDigitToByte_Some [of "checksum n"] by (auto simp: wellformed_def)
  show ?thesis
  proof (cases "is13 n")
    case True
    with wf have "prefix n = [9, 7, 8] \<or> prefix n = [9, 7, 9]"
      by (simp add: wellformed_def isAllowedPrefix_iff)
    then obtain pre where "render (prefix n) = Some pre"
      by (auto simp: isbnDigitToByte_def)
    with body c True show ?thesis by (simp add: String_def)
  next
    case False
    with body c show ?thesis by (simp add: String_def)
  qed
qed

lemma ToURN_total: "wellformed n \<Longrightarrow> \<exists>s. ToURN n = Some s"
  using String_total [of n] by (auto simp: ToURN_def)

lemma Canonical_total: "wellformed n \<Longrightarrow> \<exists>s. Canonical n = Some s"
  using ToURN_total [OF To13_wellformed, of n] by (simp add: Canonical_def)

text \<open>
  Claim C7.  Every value produced by \<open>Parse\<close>, \<open>To10\<close> or \<open>To13\<close> (by a call of
  \<open>Parse\<close> and any calls of the conversions after it) has nine body
  digits, each in 0..9, and a checksum in 0..10 that equals \<open>check13 prefix digits\<close>
  when the value is an ISBN-13 and \<open>check10 digits\<close> when it is an ISBN-10; the
  checksum 10 occurs only on an ISBN-10.
\<close>

theorem construction_invariant:
  "produce h = Inr n \<Longrightarrow>
     length (digits n) = 9 \<and> (\<forall>d\<in>set (digits n). d \<le> 9) \<and> checksum n \<le> 10 \<and>
     checksum n = (if is13 n then check13 (prefix n) (digits n) else check10 (digits n)) \<and>
     (checksum n = 10 \<longrightarrow> \<not> is13 n)"
proof -
  assume "produce h = Inr n"
  then have "wellformed n" by (rule produce_wellformed)
  then show ?thesis
    by (auto simp: wellformed_def isValid_def list_all_iff)
qed

theorem construction_invariant_witness:
  "produce (CallParse ''080442957X'')
     = Inr \<lparr>is13 = False, prefix = [0, 0, 0], digits = [0, 8, 0, 4, 4, 2, 9, 5, 7], checksum = 10\<rparr> \<and>
   check10 [0, 8, 0, 4, 4, 2, 9, 5, 7] = 10"
proof -
  have p: "produce (CallParse ''080442957X'')
      = Inr \<lparr>is13 = False, prefix = [0, 0, 0], digits = [0, 8, 0, 4, 4, 2, 9, 5, 7], checksum = 10\<rparr>"
    by code_simp
  from construction_invariant [OF p] p show ?thesis by simp
qed

text \<open>
  Claim C9.  On every value produced by \<open>Parse\<close>, \<open>To10\<close> or \<open>To13\<close> the operations
  \<open>String\<close>, \<open>ToURN\<close> and \<open>Canonical\<close> return a string: no call of
  \<open>isbnDigitToByte\<close> they make reaches its panic branch (the result \<open>None\<close>).
\<close>

theorem rendering_total:
  "produce h = Inr n \<Longrightarrow>
     (\<exists>s. String n = Some s) \<and> (\<exists>s. ToURN n = Some s) \<and> (\<exists>s. Canonical n = Some s)"
proof -
  assume "produce h = Inr n"
  then have "wellformed n" by (rule produce_wellformed)
  then show ?thesis
    using String_total ToURN_total Canonical_total by blast
qed

theorem rendering_total_witness:
  "produce (CallTo13 (CallParse ''080442957X''))
     = Inr \<lparr>is13 = True, prefix = [9, 7, 8], digits = [0, 8, 0, 4, 4, 2, 9, 5, 7], checksum = 3\<rparr> \<and>
   String \<lparr>is13 = True, prefix = [9, 7, 8], digits = [0, 8, 0, 4, 4, 2, 9, 5, 7], checksum = 3\<rparr>
     = Some ''978-0804429573'' \<and>
   Canonical \<lparr>is13 = True, prefix = [9, 7, 8], digits = [0, 8, 0, 4, 4, 2, 9, 5, 7], checksum = 3\<rparr>
     = Some ''urn:isbn:978-0804429573''"
proof -
  have p: "produce (CallTo13 (CallParse ''080442957X''))
      = Inr \<lparr>is13 = True, prefix = [9, 7, 8], digits = [0, 8, 0, 4, 4, 2, 9, 5, 7], checksum = 3\<rparr>"
    by code_simp
  have s: "String \<lparr>is13 = True, prefix = [9, 7, 8], digits = [0, 8, 0, 4, 4, 2, 9, 5, 7], checksum = 3\<rparr>
      = Some ''978-0804429573''"
    by code_simp
  have c: "Canonical \<lparr>is13 = True, prefix = [9, 7, 8], digits = [0, 8, 0, 4, 4, 2, 9, 5, 7], checksum = 3\<rparr>
      = Some ''urn:isbn:978-0804429573''"
    by code_simp
  from rendering_total [OF p] p s c show ?thesis by simp
qed

section \<open>Conversion laws\<close>

lemma To13_To13: "To13 (To13 n) = To13 n"
  by (simp add: To13_def Let_def)

lemma To13_To10: "wellformed n \<Longrightarrow> To13 (To10 n) = To13 n"
  by (cases "is13 n") (auto simp: wellformed_def To13_def To10_def isValid_def)

text \<open>
  Claim C6.  For every valid value \<open>v\<close> (one that satisfies the invariants of the data
  model, as every value produced by \<open>Parse\<close>, \<open>To10\<close> and \<open>To13\<close> does by
  \<open>produce_wellformed\<close>), \<open>Canonical v\<close>, \<open>Canonical (To10 v)\<close> and
  \<open>Canonical (To13 v)\<close> are one and the same string.
\<close>

theorem canonical_stable:
  "wellformed v \<Longrightarrow>
     \<exists>s. Canonical v = Some s \<and> Canonical (To10 v) = Some s \<and> Canonical (To13 v) = Some s"
proof -
  assume wf: "wellformed v"
  then obtain s where "Canonical v = Some s"
    using Canonical_total by blast
  moreover have "Canonical (To10 v) = Canonical v"
    using wf by (simp add: Canonical_def To13_To10)
  moreover have "Canonical (To13 v) = Canonical v"
    by (simp add: Canonical_def To13_To13)
  ultimately show ?thesis by simp
qed

theorem canonical_stable_witness:
  "wellformed \<lparr>is13 = True, prefix = [9, 7, 9], digits = [5, 0, 0, 0, 0, 0, 0, 2, 3], checksum = 5\<rparr> \<and>
   Canonical (To10 \<lparr>is13 = True, prefix = [9, 7, 9], digits = [5, 0, 0, 0, 0, 0, 0, 2, 3], checksum = 5\<rparr>)
     = Some ''urn:isbn:979-5000000235'' \<and>
   Canonical (To13 \<lparr>is13 = True, prefix = [9, 7, 9], digits = [5, 0, 0, 0, 0, 0, 0, 2, 3], checksum = 5\<rparr>)
     = Some ''urn:isbn:979-5000000235''"
proof -
  have wf: "wellformed \<lparr>is13 = True, prefix = [9, 7, 9], digits = [5, 0, 0, 0, 0, 0, 0, 2, 3], checksum = 5\<rparr>"
    by code_simp
  have c: "Canonical \<lparr>is13 = True, prefix = [9, 7, 9], digits = [5, 0, 0, 0, 0, 0, 0, 2, 3], checksum = 5\<rparr>
     = Some ''urn:isbn:979-5000000235''"
    by code_simp
  from canonical_stable [OF wf] wf c show ?thesis by auto
qed

text \<open>
  Claim C1, as amended.  For every value \<open>v\<close> whose checksum is the one of its form and
  whose prefix is allow-listed or the zero sentinel, both round trips reproduce the
  nine digits.  The round trip that comes back to the form of \<open>v\<close> reproduces the
  checksum as well: \<open>To10 (To13 v)\<close> for an ISBN-10, and \<open>To13 (To10 v)\<close> for an ISBN-13
  with an allow-listed prefix, which also gets its prefix back.  The other round trip
  ends in the other form and is just the conversion: \<open>To13 (To10 v) = To13 v\<close> for an
  ISBN-10 and \<open>To10 (To13 v) = To10 v\<close> for an ISBN-13, with the checksum of that form.
\<close>

theorem round_trip:
  "isValid v \<Longrightarrow> isAllowedPrefix (prefix v) \<or> prefix v = [0, 0, 0] \<Longrightarrow>
     digits (To10 (To13 v)) = digits v \<and> digits (To13 (To10 v)) = digits v \<and>
     (\<not> is13 v \<longrightarrow> checksum (To10 (To13 v)) = checksum v) \<and>
     (is13 v \<and> isAllowedPrefix (prefix v) \<longrightarrow>
        checksum (To13 (To10 v)) = checksum v \<and> prefix (To13 (To10 v)) = prefix v) \<and>
     (\<not> is13 v \<longrightarrow> To13 (To10 v) = To13 v) \<and>
     (is13 v \<longrightarrow> To10 (To13 v) = To10 v)"
  by (cases "is13 v") (auto simp: To10_def To13_def Let_def isValid_def)

theorem round_trip_witness:
  "isValid \<lparr>is13 = True, prefix = [9, 7, 9], digits = [5, 0, 0, 0, 0, 0, 0, 2, 3], checksum = 5\<rparr> \<and>
   isAllowedPrefix [9, 7, 9] \<and>
   checksum (To13 (To10 \<lparr>is13 = True, prefix = [9, 7, 9], digits = [5, 0, 0, 0, 0, 0, 0, 2, 3], checksum = 5\<rparr>)) = 5 \<and>
   prefix (To13 (To10 \<lparr>is13 = True, prefix = [9, 7, 9], digits = [5, 0, 0, 0, 0, 0, 0, 2, 3], checksum = 5\<rparr>)) = [9, 7, 9]"
proof -
  have h1: "isValid \<lparr>is13 = True, prefix = [9, 7, 9], digits = [5, 0, 0, 0, 0, 0, 0, 2, 3], checksum = 5\<rparr>"
    by code_simp
  have a: "isAllowedPrefix [9, 7, 9]" by code_simp
  then have h2: "isAllowedPrefix (prefix \<lparr>is13 = True, prefix = [9, 7, 9], digits = [5, 0, 0, 0, 0, 0, 0, 2, 3], checksum = 5\<rparr>)
      \<or> prefix \<lparr>is13 = True, prefix = [9, 7, 9], digits = [5, 0, 0, 0, 0, 0, 0, 2, 3], checksum = 5\<rparr> = [0, 0, 0]"
    by simp
  from round_trip [OF h1 h2] h1 a show ?thesis by simp
qed

text \<open>
  The claim as it was stated fails on the ISBN-10 \<open>0836218256\<close>: converted to
  ISBN-10 (a no-op) and then to ISBN-13 it carries the ISBN-13 checksum 1, not its own
  checksum 6.
\<close>

theorem round_trip_counterexample:
  "Parse ''0836218256''
     = Inr \<lparr>is13 = False, prefix = [0, 0, 0], digits = [0, 8, 3, 6, 2, 1, 8, 2, 5], checksum = 6\<rparr> \<and>
   isValid \<lparr>is13 = False, prefix = [0, 0, 0], digits = [0, 8, 3, 6, 2, 1, 8, 2, 5], checksum = 6\<rparr> \<and>
   prefix \<lparr>is13 = False, prefix = [0, 0, 0], digits = [0, 8, 3, 6, 2, 1, 8, 2, 5], checksum = 6\<rparr> = [0, 0, 0] \<and>
   checksum (To13 (To10 \<lparr>is13 = False, prefix = [0, 0, 0], digits = [0, 8, 3, 6, 2, 1, 8, 2, 5], checksum = 6\<rparr>)) = 1 \<and>
   checksum (To13 (To10 \<lparr>is13 = False, prefix = [0, 0, 0], digits = [0, 8, 3, 6, 2, 1, 8, 2, 5], checksum = 6\<rparr>))
     \<noteq> checksum \<lparr>is13 = False, prefix = [0, 0, 0], digits = [0, 8, 3, 6, 2, 1, 8, 2, 5], checksum = 6\<rparr>"
  by code_simp

section \<open>Parsing and separators\<close>


lemma strings_Map_Nil: "strings_Map f [] = []"
  by (simp add: strings_Map_def)

lemma strings_Map_separator:
  "is_separator c \<Longrightarrow> strings_Map runeToISBNDigit (c # s) = strings_Map runeToISBNDigit s"
  by (simp add: strings_Map_def is_separator_def)

lemma strings_Map_survivor:
  "\<not> is_separator c \<Longrightarrow>
     strings_Map runeToISBNDigit (c # s)
       = char_of (nat (runeToISBNDigit (of_char c))) # strings_Map runeToISBNDigit s"
  by (simp add: strings_Map_def is_separator_def)

lemma strings_Map_filter:
  "strings_Map runeToISBNDigit (filter (\<lambda>c. \<not> is_separator c) s) = strings_Map runeToISBNDigit s"
  by (induction s) (simp_all add: strings_Map_Nil strings_Map_separator strings_Map_survivor)

lemma length_strings_Map:
  "length (strings_Map runeToISBNDigit s) = length (filter (\<lambda>c. \<not> is_separator c) s)"
  by (induction s) (simp_all add: strings_Map_Nil strings_Map_separator strings_Map_survivor)







lemma strip_urn_no_separator:
  "\<forall>c\<in>set d. \<not> is_separator c \<Longrightarrow> strip_urn d = d"
proof -
  assume d: "\<forall>c\<in>set d. \<not> is_separator c"
  have "\<not> HasPrefix d urnPrefix"
  proof
    assume "HasPrefix d urnPrefix"
    then have "d = urnPrefix @ drop (length urnPrefix) d"
      by (metis HasPrefix_def append_take_drop_id)
    then have "CHR ''u'' \<in> set d"
      by (metis urnPrefix_def list.set_intros(1) append_Cons)
    with d have "\<not> is_separator CHR ''u''" by blast
    then show False by (simp add: is_separator_def runeToISBNDigit_def)
  qed
  then show ?thesis by (simp add: strip_urn_def)
qed

lemma same_outcome_refl: "same_outcome r r"
proof (cases r)
  case (Inl e)
  then show ?thesis by (cases e) simp_all
next
  case (Inr v)
  then show ?thesis by simp
qed

lemma same_outcome_Inr: "same_outcome (Inr v) r \<Longrightarrow> r = Inr v"
  by (cases r) auto

lemma Parse_too_long: "length (strip_urn s) > 17 \<Longrightarrow> Parse s = Inl FormatError"
  by (simp add: Parse_def)

lemma Parse_same:
  "length (strip_urn s) \<le> 17 \<Longrightarrow> length (strip_urn s') \<le> 17 \<Longrightarrow>
   strings_Map runeToISBNDigit (strip_urn s) = strings_Map runeToISBNDigit (strip_urn s') \<Longrightarrow>
   same_outcome (Parse s) (Parse s')"
  by (simp add: Parse_def Let_def same_outcome_refl)

lemma Parse_Inr_length:
  "Parse s = Inr v \<Longrightarrow>
     length (strip_urn s) \<le> 17 \<and>
     (length (strings_Map runeToISBNDigit (strip_urn s)) = 10
      \<or> length (strings_Map runeToISBNDigit (strip_urn s)) = 13)"
  by (auto simp: Parse_def Let_def split: if_splits)

lemma Parse_no_panic: "Parse s \<noteq> Inl IndexPanic"
proof -
  define m where "m = strings_Map runeToISBNDigit (strip_urn s)"
  have "parse_loop (length m = 13) 0 (map of_char (drop (if length m = 13 then 3 else 0) m)) p
          \<noteq> Inl IndexPanic"
    if "length m = 10 \<or> length m = 13" "length (digits p) = 9" for p
    using that by (intro parse_loop_no_panic) auto
  then show ?thesis
    by (auto simp: Parse_def Let_def m_def [symmetric] split: sum.splits)
qed

lemma take3_nth: "3 \<le> length m \<Longrightarrow> take 3 m = [m ! 0, m ! 1, m ! 2]"
  by (auto simp: list_eq_iff_nth_eq nth_Cons' less_Suc_eq eval_nat_numeral)

text \<open>
  Claim C8.  For every input whose text after stripping \<open>urn:isbn:\<close> has length at
  most 17, \<open>Parse\<close> fails with \<open>DigitCountError\<close> if and only if the number of
  surviving digit values is neither 10 nor 13.
\<close>

theorem digit_count_rejection:
  "length (strip_urn s) \<le> 17 \<Longrightarrow>
     (Parse s = Inl DigitCountError) =
     (length (strings_Map runeToISBNDigit (strip_urn s)) \<noteq> 10
      \<and> length (strings_Map runeToISBNDigit (strip_urn s)) \<noteq> 13)"
proof -
  assume bound: "length (strip_urn s) \<le> 17"
  define m where "m = strings_Map runeToISBNDigit (strip_urn s)"
  show ?thesis
  proof (cases "length m \<noteq> 10 \<and> length m \<noteq> 13")
    case True
    with bound have "Parse s = Inl DigitCountError"
      by (simp add: Parse_def Let_def m_def [symmetric])
    with True show ?thesis by (simp add: m_def)
  next
    case False
    have "parse_loop i13 0 cs p \<noteq> Inl DigitCountError" for i13 cs p
      using parse_loop_error [of i13 0 cs p DigitCountError] by auto
    with False bound have "Parse s \<noteq> Inl DigitCountError"
      by (auto simp: Parse_def Let_def m_def [symmetric] split: sum.splits)
    with False show ?thesis by (simp add: m_def)
  qed
qed

theorem digit_count_rejection_witness:
  "length (strip_urn ''08362208891'') \<le> 17 \<and>
   length (strings_Map runeToISBNDigit (strip_urn ''08362208891'')) = 11 \<and>
   Parse ''08362208891'' = Inl DigitCountError"
proof -
  have h: "length (strip_urn ''08362208891'') \<le> 17" by code_simp
  have n: "length (strings_Map runeToISBNDigit (strip_urn ''08362208891'')) = 11" by code_simp
  from digit_count_rejection [OF h] h n show ?thesis by simp
qed

text \<open>
  Claim C5, as amended.  Let the text left after the URN prefix be at most 17 bytes
  long and let \<open>m\<close> be its surviving digit values.  If \<open>m\<close> has length 10 and the value
  10 (an X) stands at one of the body positions 0..8, or if \<open>m\<close> has length 13, its
  first three values are an allow-listed prefix and the value 10 stands anywhere in
  \<open>m\<close>, then \<open>Parse\<close> fails with \<open>InvalidCharacterPositionError\<close>.  If \<open>m\<close> has length
  13 and its first three values are not an allow-listed prefix (as when one of them is
  an X), \<open>Parse\<close> fails with \<open>PrefixError\<close> instead, whatever follows: the prefix is
  checked before the X positions.
\<close>

theorem X_placement:
  assumes bound: "length (strip_urn s) \<le> 17"
    and m: "m = map of_char (strings_Map runeToISBNDigit (strip_urn s))"
  shows "(length m = 10 \<and> (\<exists>i<9. m ! i = (10::byte))
            \<longrightarrow> Parse s = Inl InvalidCharacterPositionError) \<and>
         (length m = 13 \<and> isAllowedPrefix (take 3 m) \<and> (\<exists>i<13. m ! i = 10)
            \<longrightarrow> Parse s = Inl InvalidCharacterPositionError) \<and>
         (length m = 13 \<and> \<not> isAllowedPrefix (take 3 m)
            \<longrightarrow> Parse s = Inl (PrefixError (take 3 (strip_urn s))))"
proof -
  define ms where "ms = strings_Map runeToISBNDigit (strip_urn s)"
  have m_ms: "m = map of_char ms" by (simp add: m ms_def)
  have body10: "Parse s = Inl InvalidCharacterPositionError"
    if ten: "length m = 10 \<and> (\<exists>i<9. m ! i = 10)"
  proof -
    from ten obtain i where i: "i < 9" "m ! i = 10" by blast
    have len: "length ms = 10" using ten m_ms by simp
    have "parse_loop False 0 m
            \<lparr>is13 = False, prefix = [0, 0, 0], digits = replicate 9 0, checksum = 0\<rparr>
          = Inl InvalidCharacterPositionError"
      using ten i by (intro parse_loop_X [where j = i]) simp_all
    then show ?thesis
      using bound len
      by (simp add: Parse_def Let_def ms_def [symmetric] m_ms [symmetric])
  qed
  have any13: "Parse s = Inl InvalidCharacterPositionError"
    if thirteen: "length m = 13 \<and> isAllowedPrefix (take 3 m) \<and> (\<exists>i<13. m ! i = 10)"
  proof -
    from thirteen obtain i where i: "i < 13" "m ! i = 10" by blast
    have len: "length ms = 13" using thirteen m_ms by simp
    have pre: "take 3 m = [of_char (ms ! 0), of_char (ms ! 1), of_char (ms ! 2)]"
      using len by (simp add: m_ms take3_nth)
    with thirteen
    have allowed: "isAllowedPrefix [of_char (ms ! 0), of_char (ms ! 1), of_char (ms ! 2)]"
      by simp
    from thirteen have "take 3 m = [9, 7, 8] \<or> take 3 m = [9, 7, 9]"
      by (simp add: isAllowedPrefix_iff)
    moreover have "take 3 m = [m ! 0, m ! 1, m ! 2]"
      using thirteen by (simp add: take3_nth)
    ultimately have "m ! 0 \<noteq> 10" "m ! 1 \<noteq> 10" "m ! 2 \<noteq> 10" by auto
    with i have i3: "3 \<le> i"
      by (cases "i = 0 \<or> i = 1 \<or> i = 2") auto
    have drop3: "map of_char (drop 3 ms) = drop 3 m" by (simp add: m_ms drop_map)
    have "parse_loop True 0 (drop 3 m)
            \<lparr>is13 = True, prefix = take 3 m, digits = replicate 9 0, checksum = 0\<rparr>
          = Inl InvalidCharacterPositionError"
      using thirteen i i3 by (intro parse_loop_X [where j = "i - 3"]) simp_all
    then show ?thesis
      using bound len allowed
      by (simp add: Parse_def Let_def ms_def [symmetric] drop3 pre)
  qed
  have foreign13: "Parse s = Inl (PrefixError (take 3 (strip_urn s)))"
    if foreign: "length m = 13 \<and> \<not> isAllowedPrefix (take 3 m)"
  proof -
    have len: "length ms = 13" using foreign m_ms by simp
    have pre: "take 3 m = [of_char (ms ! 0), of_char (ms ! 1), of_char (ms ! 2)]"
      using len by (simp add: m_ms take3_nth)
    with foreign
    have "\<not> isAllowedPrefix [of_char (ms ! 0), of_char (ms ! 1), of_char (ms ! 2)]"
      by simp
    then show ?thesis
      using bound len by (simp add: Parse_def Let_def ms_def [symmetric])
  qed
  from body10 any13 foreign13 show ?thesis by blast
qed

theorem X_placement_witness:
  "length (strip_urn ''08044295X7'') \<le> 17 \<and>
   map of_char (strings_Map runeToISBNDigit (strip_urn ''08044295X7''))
     = [0, 8, 0, 4, 4, 2, 9, 5, 10, 7 :: byte] \<and>
   Parse ''08044295X7'' = Inl InvalidCharacterPositionError"
proof -
  have h: "length (strip_urn ''08044295X7'') \<le> 17" by code_simp
  have m: "[0, 8, 0, 4, 4, 2, 9, 5, 10, 7 :: byte]
      = map of_char (strings_Map runeToISBNDigit (strip_urn ''08044295X7''))"
    by code_simp
  have "[0, 8, 0, 4, 4, 2, 9, 5, 10, 7 :: byte] ! 8 = 10" by simp
  then have x: "length [0, 8, 0, 4, 4, 2, 9, 5, 10, 7 :: byte] = 10
         \<and> (\<exists>i<9. [0, 8, 0, 4, 4, 2, 9, 5, 10, 7 :: byte] ! i = 10)"
    by (intro conjI exI [of _ 8]) simp_all
  from X_placement [OF h m] x h m show ?thesis by simp
qed

text \<open>
  The claim as it was stated fails on \<open>X780836220889\<close>: thirteen values survive, the
  first of them is the X, and \<open>Parse\<close> fails with the prefix error.
\<close>

theorem X_placement_counterexample:
  "length (strings_Map runeToISBNDigit (strip_urn ''X780836220889'')) = 13 \<and>
   (of_char (strings_Map runeToISBNDigit (strip_urn ''X780836220889'') ! 0) :: byte) = 10 \<and>
   Parse ''X780836220889'' = Inl (PrefixError ''X78'') \<and>
   Parse ''X780836220889'' \<noteq> Inl InvalidCharacterPositionError"
  by code_simp







section \<open>The bound on separators\<close>

text \<open>
  What the length guard of \<open>Parse\<close> achieves.  Let \<open>t\<close> be the text left after the URN
  prefix and \<open>d\<close> its digit characters, and let \<open>d\<close> alone parse to \<open>v\<close>.  Then \<open>d\<close> has
  10 or 13 characters; with at most 4 extra bytes the input parses to \<open>v\<close>; and 13
  digits with 5 or more extra bytes are rejected.
\<close>

lemma length_guard:
  assumes t: "t = strip_urn s"
    and d: "d = filter (\<lambda>c. \<not> is_separator c) t"
    and ok: "Parse d = Inr v"
  shows "(length d = 10 \<or> length d = 13) \<and>
         (length t \<le> length d + 4 \<longrightarrow> Parse s = Inr v) \<and>
         (length d = 13 \<and> length t \<ge> length d + 5 \<longrightarrow> Parse s = Inl FormatError)"
proof -
  have nosep: "\<forall>c\<in>set d. \<not> is_separator c" by (simp add: d)
  then have strip_d: "strip_urn d = d" by (rule strip_urn_no_separator)
  have survivors: "strings_Map runeToISBNDigit d = strings_Map runeToISBNDigit t"
    by (simp add: d strings_Map_filter)
  have len_d: "length (strings_Map runeToISBNDigit d) = length d"
    using nosep by (simp add: length_strings_Map)
  from Parse_Inr_length [OF ok] have d17: "length d \<le> 17"
    and len: "length d = 10 \<or> length d = 13"
    by (simp_all add: strip_d len_d)
  have short: "Parse s = Inr v" if "length t \<le> 17"
  proof -
    have "same_outcome (Parse d) (Parse s)"
      using d17 that survivors by (intro Parse_same) (simp_all add: strip_d t [symmetric])
    with ok show ?thesis by (simp add: same_outcome_Inr)
  qed
  have long: "Parse s = Inl FormatError" if "length t > 17"
    using that by (intro Parse_too_long) (simp add: t [symmetric])
  from len short long show ?thesis by auto
qed

text \<open>
  Claim C4.  An input with up to 4 extra non-digit characters among exactly 10 or 13
  digits parses, and one with 5 or more is rejected.  The source states the rule (the
  string "should not contain more than 4" hyphens or spaces) and enforces it by the one
  guard \<^verbatim>\<open>len(s) > 13+4\<close>, which is exact for 13 digits only.  On the ISBN-10
  \<open>080442957X\<close> written with five hyphens (15 bytes, 5 of them dropped) the code
  departs from the rule and parses the input, while 13 digits with five hyphens are
  rejected.
\<close>

theorem five_separators_accepted:
  "length ''0-8-0-4-4-2957X'' = 15 \<and>
   length (filter is_separator ''0-8-0-4-4-2957X'') = 5 \<and>
   Parse ''080442957X''
     = Inr \<lparr>is13 = False, prefix = [0, 0, 0], digits = [0, 8, 0, 4, 4, 2, 9, 5, 7], checksum = 10\<rparr> \<and>
   Parse ''0-8-0-4-4-2957X''
     = Inr \<lparr>is13 = False, prefix = [0, 0, 0], digits = [0, 8, 0, 4, 4, 2, 9, 5, 7], checksum = 10\<rparr> \<and>
   length (filter is_separator ''978-0-8044-2957--3'') = 5 \<and>
   Parse ''978-0-8044-2957--3'' = Inl FormatError"
  by code_simp

end
